theory Spec2Isabelle
  imports Main
begin

section \<open>Values, objects and the heap\<close>

text \<open>
  The traversal engine of \<^verbatim>\<open>src/deps/traverse.js\<close> works on JavaScript values: scalars,
  and objects that are shared by reference and mutated in place. The embedding keeps the
  sharing: an object lives in a heap and a value refers to it by its address, so that
  \<^verbatim>\<open>===\<close> on two objects is equality of addresses.

  A property key is a string. The canonical decimal strings \<^verbatim>\<open>"0"\<close>, \<^verbatim>\<open>"1"\<close>, ... (the array
  indices) are \<open>KIdx n\<close>; every other name is \<open>KStr s\<close>. Numbers are integers.
\<close>

type_synonym ref = nat

datatype key = KIdx nat | KStr string

datatype val = VUndef | VNull | VBool bool | VNum int | VStr string | VRef ref

datatype kind = KObject | KArray | KDate | KRegExp | KError | KBoolean | KNumber | KString

text \<open>
  An object has a kind (what \<^verbatim>\<open>isArray\<close>, \<^verbatim>\<open>isDate\<close>, ... test), a prototype tag (\<open>0\<close> is
  the built-in prototype of its kind), an internal slot (the instant of a date, the source of
  a pattern, the boxed scalar, the message of an error), the \<^verbatim>\<open>length\<close> of an array, and its
  own enumerable properties in enumeration order: index keys ascending, then names in
  insertion order. Inherited and non-enumerable properties are outside the model: reading a
  key that is not an own property gives \<^verbatim>\<open>undefined\<close>.
\<close>

record obj =
  kind :: kind
  proto :: nat
  slot :: val
  alen :: nat
  props :: "(key \<times> val) list"

type_synonym heap = "obj list"

datatype error = TypeError | UserError

text \<open>
  The outcome of a computation that may throw or may not return: \<open>OutOfFuel\<close> is the
  value of a run that was cut off.
\<close>

datatype 'a res = OutOfFuel | Throw error | Done 'a

fun bind :: "'a res \<Rightarrow> ('a \<Rightarrow> 'b res) \<Rightarrow> 'b res" where
  "bind OutOfFuel f = OutOfFuel"
| "bind (Throw e) f = Throw e"
| "bind (Done x) f = f x"

definition empty_obj :: obj where
  "empty_obj = \<lparr>kind = KObject, proto = 0, slot = VUndef, alen = 0, props = []\<rparr>"

text \<open>
  Every reference of a JavaScript program points to an object. To keep the functions total,
  an address outside the heap reads as an empty record and a write to it is dropped.
\<close>

definition deref :: "heap \<Rightarrow> ref \<Rightarrow> obj" where
  "deref h r = (if r < length h then h ! r else empty_obj)"

definition alloc :: "heap \<Rightarrow> obj \<Rightarrow> ref \<times> heap" where
  "alloc h ob = (length h, h @ [ob])"

subsection \<open>Own properties\<close>

text \<open>Where a new key goes in the enumeration order.\<close>

fun ins_prop :: "key \<Rightarrow> val \<Rightarrow> (key \<times> val) list \<Rightarrow> (key \<times> val) list" where
  "ins_prop k v [] = [(k, v)]"
| "ins_prop (KIdx n) v ((KIdx m, w) # ps) =
     (if n < m then (KIdx n, v) # (KIdx m, w) # ps else (KIdx m, w) # ins_prop (KIdx n) v ps)"
| "ins_prop (KIdx n) v ((KStr s, w) # ps) = (KIdx n, v) # (KStr s, w) # ps"
| "ins_prop (KStr s) v (p # ps) = p # ins_prop (KStr s) v ps"

fun upd_prop :: "key \<Rightarrow> val \<Rightarrow> (key \<times> val) list \<Rightarrow> (key \<times> val) list" where
  "upd_prop k v [] = []"
| "upd_prop k v ((k', w) # ps) = (if k = k' then (k, v) # ps else (k', w) # upd_prop k v ps)"

definition set_own :: "key \<Rightarrow> val \<Rightarrow> obj \<Rightarrow> obj" where
  "set_own k v ob =
     (let ps = (if map_of (props ob) k = None then ins_prop k v (props ob)
                else upd_prop k v (props ob));
          n = (case k of KIdx i \<Rightarrow> if kind ob = KArray \<and> alen ob \<le> i then Suc i else alen ob
               | KStr _ \<Rightarrow> alen ob)
      in ob\<lparr>props := ps, alen := n\<rparr>)"

definition del_own :: "key \<Rightarrow> obj \<Rightarrow> obj" where
  "del_own k ob = ob\<lparr>props := filter (\<lambda>p. fst p \<noteq> k) (props ob)\<rparr>"

text \<open>
  \<^verbatim>\<open>arr.splice(start, 1)\<close>: the element at \<open>start\<close> goes, every later index moves down by
  one, the length drops by one. A name that is no number converts to \<^verbatim>\<open>NaN\<close>, which
  \<^verbatim>\<open>splice\<close> reads as \<open>0\<close>.
\<close>

definition key_index :: "key \<Rightarrow> nat" where
  "key_index k = (case k of KIdx i \<Rightarrow> i | KStr _ \<Rightarrow> 0)"

fun shift_down :: "nat \<Rightarrow> (key \<times> val) list \<Rightarrow> (key \<times> val) list" where
  "shift_down i [] = []"
| "shift_down i ((KIdx j, v) # ps) =
     (if j = i then shift_down i ps
      else if i < j then (KIdx (j - 1), v) # shift_down i ps
      else (KIdx j, v) # shift_down i ps)"
| "shift_down i ((KStr s, v) # ps) = (KStr s, v) # shift_down i ps"

definition splice1 :: "key \<Rightarrow> obj \<Rightarrow> obj" where
  "splice1 k ob =
     (let i = key_index k
      in if i < alen ob then ob\<lparr>props := shift_down i (props ob), alen := alen ob - 1\<rparr>
         else ob)"

subsection \<open>Reading and writing through a value\<close>

text \<open>
  \<^verbatim>\<open>v[k]\<close>, \<^verbatim>\<open>v[k] = x\<close> and \<^verbatim>\<open>delete v[k]\<close>. On \<^verbatim>\<open>undefined\<close> and \<^verbatim>\<open>null\<close> each throws a
  TypeError; on another scalar the read gives \<^verbatim>\<open>undefined\<close> and the write is ignored (the
  file is not in strict mode).
\<close>

fun get_prop :: "heap \<Rightarrow> val \<Rightarrow> key \<Rightarrow> val res" where
  "get_prop h VUndef k = Throw TypeError"
| "get_prop h VNull k = Throw TypeError"
| "get_prop h (VRef r) k =
     Done (case map_of (props (deref h r)) k of None \<Rightarrow> VUndef | Some v \<Rightarrow> v)"
| "get_prop h v k = Done VUndef"

fun put_prop :: "heap \<Rightarrow> val \<Rightarrow> key \<Rightarrow> val \<Rightarrow> heap res" where
  "put_prop h VUndef k x = Throw TypeError"
| "put_prop h VNull k x = Throw TypeError"
| "put_prop h (VRef r) k x = Done (h[r := set_own k x (deref h r)])"
| "put_prop h v k x = Done h"

fun del_prop :: "heap \<Rightarrow> val \<Rightarrow> key \<Rightarrow> heap res" where
  "del_prop h VUndef k = Throw TypeError"
| "del_prop h VNull k = Throw TypeError"
| "del_prop h (VRef r) k = Done (h[r := del_own k (deref h r)])"
| "del_prop h v k = Done h"

subsection \<open>The predicates and helpers the file requires\<close>

text \<open>
  Modelled from the spec: \<^verbatim>\<open>is/pureObj\<close> is not among the sources. A node is a composite
  or one of the special leaf types exactly when it is an object and not a scalar; \<^verbatim>\<open>copy\<close>
  tests arrays, dates, patterns, errors and boxed scalars under this guard.
\<close>

fun isPureObj :: "val \<Rightarrow> bool" where
  "isPureObj (VRef r) = True"
| "isPureObj v = False"

definition isKind :: "kind \<Rightarrow> heap \<Rightarrow> val \<Rightarrow> bool" where
  "isKind c h v = (case v of VRef r \<Rightarrow> kind (deref h r) = c | _ \<Rightarrow> False)"

abbreviation isArray :: "heap \<Rightarrow> val \<Rightarrow> bool" where
  "isArray \<equiv> isKind KArray"

text \<open>
  Modelled from the spec: \<^verbatim>\<open>util/hasOwnProperty\<close> and \<^verbatim>\<open>util/keys\<close> are not among the
  sources. The first is the own-property test (never an inherited property, false on a
  value that is no container), the second the own enumerable keys in enumeration order.
\<close>

fun hasOwnProperty :: "heap \<Rightarrow> val \<Rightarrow> key \<Rightarrow> bool" where
  "hasOwnProperty h (VRef r) k = (map_of (props (deref h r)) k \<noteq> None)"
| "hasOwnProperty h v k = False"

fun objectKeys :: "heap \<Rightarrow> val \<Rightarrow> key list" where
  "objectKeys h (VRef r) = map fst (props (deref h r))"
| "objectKeys h v = []"

text \<open>What \<^verbatim>\<open>!node\<close> tests.\<close>

fun falsy :: "val \<Rightarrow> bool" where
  "falsy VUndef = True"
| "falsy VNull = True"
| "falsy (VBool b) = (\<not> b)"
| "falsy (VNum n) = (n = 0)"
| "falsy (VStr s) = (s = [])"
| "falsy (VRef r) = False"

section \<open>StructuralCopy\<close>

text \<open>
  \<^verbatim>\<open>copy(src)\<close>: a scalar is returned as it is. For an object a new one is made after the
  kind of the source (\<^verbatim>\<open>new Boolean(src)\<close> of an object is always the boxed \<^verbatim>\<open>true\<close>), then
  every own key of the source is assigned to it.
\<close>

definition copy_base :: "obj \<Rightarrow> obj" where
  "copy_base src =
     (if kind src = KArray then empty_obj\<lparr>kind := KArray\<rparr>
      else if kind src = KDate then empty_obj\<lparr>kind := KDate, slot := slot src\<rparr>
      else if kind src = KRegExp then empty_obj\<lparr>kind := KRegExp, slot := slot src\<rparr>
      else if kind src = KError then empty_obj\<lparr>props := [(KStr ''message'', slot src)]\<rparr>
      else if kind src = KBoolean then empty_obj\<lparr>kind := KBoolean, slot := VBool True\<rparr>
      else if kind src = KNumber then empty_obj\<lparr>kind := KNumber, slot := slot src\<rparr>
      else if kind src = KString then empty_obj\<lparr>kind := KString, slot := slot src\<rparr>
      else empty_obj\<lparr>proto := proto src\<rparr>)"

definition copy_obj :: "obj \<Rightarrow> obj" where
  "copy_obj src = fold (\<lambda>(k, v) dst. set_own k v dst) (props src) (copy_base src)"

fun copy :: "heap \<Rightarrow> val \<Rightarrow> val \<times> heap" where
  "copy h (VRef r) = (let (d, h') = alloc h (copy_obj (deref h r)) in (VRef d, h'))"
| "copy h v = (v, h)"

section \<open>Path access of the facade\<close>

text \<open>
  \<^verbatim>\<open>Traverse.prototype.get\<close> and \<^verbatim>\<open>has\<close>, as loops over the path. The read \<^verbatim>\<open>node[key]\<close> is
  the throwing \<open>get_prop\<close>, as in the source.
\<close>

fun get :: "heap \<Rightarrow> val \<Rightarrow> key list \<Rightarrow> val res" where
  "get h node [] = Done node"
| "get h node (k # ps) =
     (if falsy node \<or> \<not> hasOwnProperty h node k then Done VUndef
      else bind (get_prop h node k) (\<lambda>n. get h n ps))"

fun has :: "heap \<Rightarrow> val \<Rightarrow> key list \<Rightarrow> bool res" where
  "has h node [] = Done True"
| "has h node (k # ps) =
     (if falsy node \<or> \<not> hasOwnProperty h node k then Done False
      else bind (get_prop h node k) (\<lambda>n. has h n ps))"

section \<open>TraversalState\<close>

text \<open>
  The state object that \<^verbatim>\<open>walker\<close> builds for every node it visits. \<open>node_orig\<close> is the
  field \<^verbatim>\<open>node_\<close>. The fields \<^verbatim>\<open>parent\<close> and \<^verbatim>\<open>circular\<close> refer to state objects on the
  ancestor stack: \<open>circular\<close> is the position of that state in the stack, and the parent is
  the last state of the stack the visit started with. Fields that the source leaves
  unassigned until later are optional.
\<close>

record tstate =
  node :: val
  node_orig :: val
  path :: "key list"
  key :: "key option"
  isRoot :: bool
  level :: nat
  circular :: "nat option"
  keys :: "key list option"
  isLeaf :: "bool option"
  notLeaf :: "bool option"
  notRoot :: "bool option"
  isLast :: "bool option"
  isFirst :: "bool option"

text \<open>
  A callback is JavaScript code bound to the state. Here it is a function of its own
  accumulator \<open>'u\<close> and of what it can read (the state, the ancestor stack, the heap) that
  answers with its new accumulator and the calls it makes on the state, in order; the
  control operations of the state are the constructors of \<open>op\<close>. A hook that a callback
  registers is again such a function. \<open>Raise\<close> is a callback that throws.
\<close>

datatype 'u op =
    Update val bool
  | Delete bool
  | Remove bool
  | Stop
  | Block
  | Raise
  | Before "'u \<Rightarrow> tstate \<times> tstate list \<times> heap \<Rightarrow> 'u \<times> 'u op list"
  | After "'u \<Rightarrow> tstate \<times> tstate list \<times> heap \<Rightarrow> 'u \<times> 'u op list"
  | Pre "'u \<Rightarrow> tstate \<times> tstate list \<times> heap \<Rightarrow> val \<Rightarrow> key \<Rightarrow> 'u \<times> 'u op list"
  | Post "'u \<Rightarrow> tstate \<times> tstate list \<times> heap \<Rightarrow> tstate \<Rightarrow> 'u \<times> 'u op list"

type_synonym view = "tstate \<times> tstate list \<times> heap"
type_synonym 'u hook = "'u \<Rightarrow> view \<Rightarrow> 'u \<times> 'u op list"
type_synonym 'u callback = "'u \<Rightarrow> view \<Rightarrow> 'u \<times> 'u op list \<times> val"

text \<open>
  The variables of one visit (the state, \<^verbatim>\<open>modifiers\<close>, \<^verbatim>\<open>keepGoing\<close>) together with the
  variables of the whole walk that a visit changes (the heap, \<^verbatim>\<open>alive\<close>, the accumulator
  of the callback).
\<close>

record 'u frame =
  cur :: tstate
  m_before :: "'u hook option"
  m_after :: "'u hook option"
  m_pre :: "('u \<Rightarrow> view \<Rightarrow> val \<Rightarrow> key \<Rightarrow> 'u \<times> 'u op list) option"
  m_post :: "('u \<Rightarrow> view \<Rightarrow> tstate \<Rightarrow> 'u \<times> 'u op list) option"
  keepGoing :: bool
  hp :: heap
  alive :: bool
  usr :: 'u

definition init_state :: "key list \<Rightarrow> val \<Rightarrow> val \<Rightarrow> tstate" where
  "init_state p nd nd0 =
     \<lparr>node = nd, node_orig = nd0, path = p,
      key = (if p = [] then None else Some (last p)),
      isRoot = (p = []), level = length p, circular = None, keys = None,
      isLeaf = None, notLeaf = None, notRoot = None, isLast = None, isFirst = None\<rparr>"

text \<open>The name \<^verbatim>\<open>state.key\<close> converts to when it is used as a property key.\<close>

definition key_of :: "tstate \<Rightarrow> key" where
  "key_of s = (case key s of None \<Rightarrow> KStr ''undefined'' | Some k \<Rightarrow> k)"

text \<open>\<^verbatim>\<open>state.parent.node\<close>: reading \<^verbatim>\<open>node\<close> of an undefined parent throws.\<close>

definition parent_node :: "tstate list \<Rightarrow> val res" where
  "parent_node ps = (if ps = [] then Throw TypeError else Done (node (last ps)))"

fun find_idx :: "('a \<Rightarrow> bool) \<Rightarrow> 'a list \<Rightarrow> nat option" where
  "find_idx P [] = None"
| "find_idx P (x # xs) = (if P x then Some 0 else map_option Suc (find_idx P xs))"

text \<open>\<^verbatim>\<open>updateState\<close>, for the ancestor stack \<open>ps\<close> as it is at the call.\<close>

definition updateState :: "tstate list \<Rightarrow> heap \<Rightarrow> val \<Rightarrow> tstate \<Rightarrow> tstate" where
  "updateState ps h nd0 s =
     (let s1 =
        (if isPureObj (node s) then
           let ks = (if keys s = None \<or> node_orig s \<noteq> node s then objectKeys h (node s)
                     else the (keys s));
               c = (case find_idx (\<lambda>p. node_orig p = nd0) ps of
                      None \<Rightarrow> circular s | Some i \<Rightarrow> Some i)
           in s\<lparr>keys := Some ks, isLeaf := Some (length ks = 0), circular := c\<rparr>
         else s\<lparr>isLeaf := Some True, keys := None\<rparr>)
      in s1\<lparr>notLeaf := map_option Not (isLeaf s1), notRoot := Some (\<not> isRoot s1)\<rparr>)"

subsection \<open>The control operations\<close>

text \<open>
  One call on the state, made during a visit whose ancestor stack at entry was \<open>ps\<close>:
  \<^verbatim>\<open>update\<close>, \<^verbatim>\<open>delete\<close>, \<^verbatim>\<open>remove\<close>, \<^verbatim>\<open>stop\<close>, \<^verbatim>\<open>block\<close> and the four hook registrations.
\<close>

definition stop_here :: "bool \<Rightarrow> 'u frame \<Rightarrow> 'u frame" where
  "stop_here b fr = (if b then fr\<lparr>keepGoing := False\<rparr> else fr)"

fun run_op :: "tstate list \<Rightarrow> 'u op \<Rightarrow> 'u frame \<Rightarrow> 'u frame res" where
  "run_op ps (Update x stopHere) fr =
     bind (if \<not> isRoot (cur fr)
           then bind (parent_node ps) (\<lambda>pn. put_prop (hp fr) pn (key_of (cur fr)) x)
           else Done (hp fr))
       (\<lambda>h. Done (stop_here stopHere (fr\<lparr>hp := h, cur := (cur fr)\<lparr>node := x\<rparr>\<rparr>)))"
| "run_op ps (Delete stopHere) fr =
     bind (bind (parent_node ps) (\<lambda>pn. del_prop (hp fr) pn (key_of (cur fr))))
       (\<lambda>h. Done (stop_here stopHere (fr\<lparr>hp := h\<rparr>)))"
| "run_op ps (Remove stopHere) fr =
     (if ps = [] then Done fr
      else bind (if isArray (hp fr) (node (last ps))
                 then (case node (last ps) of
                         VRef r \<Rightarrow> Done ((hp fr)[r := splice1 (key_of (cur fr)) (deref (hp fr) r)])
                       | _ \<Rightarrow> Done (hp fr))
                 else del_prop (hp fr) (node (last ps)) (key_of (cur fr)))
             (\<lambda>h. Done (stop_here stopHere (fr\<lparr>hp := h\<rparr>))))"
| "run_op ps Stop fr = Done (fr\<lparr>alive := False\<rparr>)"
| "run_op ps Block fr = Done (fr\<lparr>keepGoing := False\<rparr>)"
| "run_op ps Raise fr = Throw UserError"
| "run_op ps (Before f) fr = Done (fr\<lparr>m_before := Some f\<rparr>)"
| "run_op ps (After f) fr = Done (fr\<lparr>m_after := Some f\<rparr>)"
| "run_op ps (Pre f) fr = Done (fr\<lparr>m_pre := Some f\<rparr>)"
| "run_op ps (Post f) fr = Done (fr\<lparr>m_post := Some f\<rparr>)"

fun run_ops :: "tstate list \<Rightarrow> 'u op list \<Rightarrow> 'u frame \<Rightarrow> 'u frame res" where
  "run_ops ps [] fr = Done fr"
| "run_ops ps (c # cs) fr = bind (run_op ps c fr) (run_ops ps cs)"

text \<open>
  Calling a hook: \<open>live\<close> is the ancestor stack at the call, \<open>ps\<close> the one the visit
  started with (the parent of the state does not change).
\<close>

definition run_hook :: "tstate list \<Rightarrow> tstate list \<Rightarrow> 'u hook \<Rightarrow> 'u frame \<Rightarrow> 'u frame res" where
  "run_hook ps live f fr =
     (let (u, cs) = f (usr fr) (cur fr, live, hp fr) in run_ops ps cs (fr\<lparr>usr := u\<rparr>))"

definition opt_hook :: "tstate list \<Rightarrow> tstate list \<Rightarrow> 'u hook option \<Rightarrow> 'u frame \<Rightarrow> 'u frame res" where
  "opt_hook ps live m fr = (case m of None \<Rightarrow> Done fr | Some f \<Rightarrow> run_hook ps live f fr)"

section \<open>NodeWalker\<close>

text \<open>
  What a visit hands back to its caller: the state it returns and the variables of the
  walk.
\<close>

type_synonym 'u ret = "tstate \<times> heap \<times> bool \<times> 'u"

type_synonym 'u visitor = "key list \<Rightarrow> tstate list \<Rightarrow> heap \<times> bool \<times> 'u \<Rightarrow> val \<Rightarrow> 'u ret res"

definition result :: "'u frame \<Rightarrow> 'u ret" where
  "result fr = (cur fr, hp fr, alive fr, usr fr)"

subsection \<open>One child\<close>

text \<open>
  The function that \<^verbatim>\<open>walker\<close> runs for each key of the snapshot, in its four steps. \<open>p\<close> and
  \<open>ps\<close> are \<^verbatim>\<open>path\<close> and \<^verbatim>\<open>parents\<close> as the visit of the parent found them: the function
  runs with the state of the parent pushed, and the visit \<open>visit\<close> of the child with the key
  pushed. \<open>i\<close> is the index of the key and \<open>n\<close> is \<^verbatim>\<open>state.keys.length\<close>.
\<close>

definition pre_step :: "tstate list \<Rightarrow> key \<Rightarrow> 'u frame \<Rightarrow> 'u frame res" where
  "pre_step ps k fr =
     (case m_pre fr of None \<Rightarrow> Done fr
      | Some f \<Rightarrow> bind (get_prop (hp fr) (node (cur fr)) k)
                   (\<lambda>v. run_hook ps (ps @ [cur fr]) (\<lambda>u vw. f u vw v k) fr))"

definition write_back :: "bool \<Rightarrow> heap \<Rightarrow> val \<Rightarrow> key \<Rightarrow> tstate \<Rightarrow> heap res" where
  "write_back immutable h nd k child =
     (if immutable \<and> hasOwnProperty h nd k then put_prop h nd k (node child) else Done h)"

definition mark_child :: "nat \<Rightarrow> nat \<Rightarrow> tstate \<Rightarrow> tstate" where
  "mark_child i n child = child\<lparr>isLast := Some (i = n - 1), isFirst := Some (i = 0)\<rparr>"

definition post_step :: "tstate list \<Rightarrow> tstate \<Rightarrow> 'u frame \<Rightarrow> 'u frame res" where
  "post_step ps child fr =
     (case m_post fr of None \<Rightarrow> Done fr
      | Some f \<Rightarrow> run_hook ps (ps @ [cur fr]) (\<lambda>u vw. f u vw child) fr)"

definition child_step ::
  "'u visitor \<Rightarrow> bool \<Rightarrow> key list \<Rightarrow> tstate list \<Rightarrow> nat \<Rightarrow> nat \<Rightarrow> key \<Rightarrow> 'u frame
    \<Rightarrow> 'u frame res" where
  "child_step visit immutable p ps i n k fr =
     bind (pre_step ps k fr)
     (\<lambda>fr1. bind (get_prop (hp fr1) (node (cur fr1)) k)
     (\<lambda>cv. bind (visit (p @ [k]) (ps @ [cur fr1]) (hp fr1, alive fr1, usr fr1) cv)
     (\<lambda>(child, h, al, u). bind (write_back immutable h (node (cur fr1)) k child)
     (\<lambda>h'. post_step ps (mark_child i n child) (fr1\<lparr>hp := h', alive := al, usr := u\<rparr>)))))"

text \<open>The loop \<^verbatim>\<open>forEach(state.keys, (key, i) => ...)\<close> over the key snapshot.\<close>

fun children ::
  "'u visitor \<Rightarrow> bool \<Rightarrow> key list \<Rightarrow> tstate list \<Rightarrow> nat \<Rightarrow> nat \<Rightarrow> key list \<Rightarrow> 'u frame
    \<Rightarrow> 'u frame res" where
  "children visit immutable p ps i n [] fr = Done fr"
| "children visit immutable p ps i n (k # ks) fr =
     bind (child_step visit immutable p ps i n k fr)
       (children visit immutable p ps (Suc i) n ks)"

subsection \<open>One visit\<close>

text \<open>
  The callback is called on the state and its calls are carried out; what it returns, when
  defined, is an \<^verbatim>\<open>update\<close>; then the \<^verbatim>\<open>before\<close> hook runs, if one is registered by now.
\<close>

definition call_cb ::
  "'u callback \<Rightarrow> tstate list \<Rightarrow> tstate \<Rightarrow> heap \<Rightarrow> 'u \<Rightarrow> 'u frame res" where
  "call_cb cb ps s1 h1 u =
     (let (u1, cs, ret) = cb u (s1, ps, h1);
          fr0 = \<lparr>cur = s1, m_before = None, m_after = None, m_pre = None, m_post = None,
                 keepGoing = True, hp = h1, alive = True, usr = u1\<rparr>
      in bind (run_ops ps cs fr0)
         (\<lambda>fr1. bind (if ret \<noteq> VUndef then run_op ps (Update ret False) fr1 else Done fr1)
         (\<lambda>fr2. opt_hook ps ps (m_before fr2) fr2)))"

text \<open>
  The descent: when the node is an object and has no circular link, the state is pushed,
  \<^verbatim>\<open>updateState()\<close> runs again and the children are visited.
\<close>

definition descend ::
  "'u visitor \<Rightarrow> bool \<Rightarrow> key list \<Rightarrow> tstate list \<Rightarrow> val \<Rightarrow> 'u frame \<Rightarrow> 'u frame res" where
  "descend visit immutable p ps nd0 fr =
     (if isPureObj (node (cur fr)) \<and> circular (cur fr) = None
      then let s4 = updateState (ps @ [cur fr]) (hp fr) nd0 (cur fr);
               ks = (case keys s4 of None \<Rightarrow> [] | Some ks \<Rightarrow> ks)
           in children visit immutable p ps 0 (length ks) ks (fr\<lparr>cur := s4\<rparr>)
      else Done fr)"

text \<open>
  The body of \<^verbatim>\<open>walker(node_)\<close>, with the recursive call as the parameter \<open>visit\<close>.
\<close>

definition walker_body ::
  "'u visitor \<Rightarrow> 'u callback \<Rightarrow> bool \<Rightarrow> 'u visitor" where
  "walker_body visit cb immutable p ps w nd0 =
     (case w of (h, al, u) \<Rightarrow>
      let (nd, h1) = (if immutable then copy h nd0 else (nd0, h));
          s0 = init_state p nd nd0
      in if \<not> al then Done (s0, h1, al, u)
         else bind (call_cb cb ps (updateState ps h1 nd0 s0) h1 u)
              (\<lambda>fr3. if \<not> keepGoing fr3 then Done (result fr3)
                 else bind (descend visit immutable p ps nd0 fr3)
                      (\<lambda>fr5. bind (opt_hook ps ps (m_after fr5) fr5)
                      (\<lambda>fr6. Done (result fr6)))))"

text \<open>
  \<^verbatim>\<open>walker\<close> is recursive and a callback may keep it descending for ever, so the recursion
  is bounded by fuel: one unit for each level of nesting.
\<close>

primrec walker :: "nat \<Rightarrow> 'u callback \<Rightarrow> bool \<Rightarrow> 'u visitor" where
  "walker 0 cb immutable = (\<lambda>p ps w nd0. OutOfFuel)"
| "walker (Suc n) cb immutable = walker_body (walker n cb immutable) cb immutable"

text \<open>\<^verbatim>\<open>walk(root, cb, immutable)\<close>: the \<^verbatim>\<open>node\<close> of the state of the root, and the heap after.\<close>

definition walk ::
  "nat \<Rightarrow> heap \<Rightarrow> val \<Rightarrow> 'u callback \<Rightarrow> 'u \<Rightarrow> bool \<Rightarrow> (val \<times> heap \<times> 'u) res" where
  "walk fuel h root cb u immutable =
     bind (walker fuel cb immutable [] [] (h, True, u) root)
       (\<lambda>(s, h', al, u'). Done (node s, h', u'))"

section \<open>The facade\<close>

text \<open>
  The methods of \<^verbatim>\<open>Traverse.prototype\<close> that walk. \<open>value\<close> is \<^verbatim>\<open>this.value\<close>; a method
  answers with what it returns, \<^verbatim>\<open>this.value\<close> after the call, the heap and the accumulator
  of the callback.
\<close>

definition map_tr ::
  "nat \<Rightarrow> heap \<Rightarrow> val \<Rightarrow> 'u callback \<Rightarrow> 'u \<Rightarrow> (val \<times> val \<times> heap \<times> 'u) res" where
  "map_tr fuel h value cb u =
     bind (walk fuel h value cb u True) (\<lambda>(r, h', u'). Done (r, value, h', u'))"

definition forEach ::
  "nat \<Rightarrow> heap \<Rightarrow> val \<Rightarrow> 'u callback \<Rightarrow> 'u \<Rightarrow> (val \<times> val \<times> heap \<times> 'u) res" where
  "forEach fuel h value cb u =
     bind (walk fuel h value cb u False) (\<lambda>(r, h', u'). Done (r, r, h', u'))"

text \<open>
  \<^verbatim>\<open>forEachs\<close> drops what the callback returns.
\<close>

definition forEachs ::
  "nat \<Rightarrow> heap \<Rightarrow> val \<Rightarrow> 'u hook \<Rightarrow> 'u \<Rightarrow> (val \<times> val \<times> heap \<times> 'u) res" where
  "forEachs fuel h value cb u =
     forEach fuel h value (\<lambda>u vw. let (u', cs) = cb u vw in (u', cs, VUndef)) u"

text \<open>
  \<^verbatim>\<open>reduce(cb, init)\<close>. The accumulator of a JavaScript reducer is any value; here it has a
  type \<open>'a\<close> of its own, and \<open>of_val\<close> is how a node is read as an accumulator when the root
  seeds it. \<open>init = None\<close> is the call with one argument. The reducer answers with the new
  accumulator and the calls it makes on the state.
\<close>

definition reduce ::
  "nat \<Rightarrow> heap \<Rightarrow> val \<Rightarrow> ('a \<Rightarrow> view \<Rightarrow> val \<Rightarrow> 'a \<times> 'a op list) \<Rightarrow> 'a option \<Rightarrow> (val \<Rightarrow> 'a)
    \<Rightarrow> ('a \<times> val \<times> heap) res" where
  "reduce fuel h value cb init of_val =
     (let skip = (init = None);
          acc = (if skip then of_val value else the init)
      in bind (forEach fuel h value
                 (\<lambda>a vw. if \<not> isRoot (fst vw) \<or> \<not> skip
                          then (let (a', cs) = cb a vw (node (fst vw)) in (a', cs, VUndef))
                          else (a, [], VUndef))
                 acc)
           (\<lambda>(r, v, h', a). Done (a, v, h')))"

definition paths :: "nat \<Rightarrow> heap \<Rightarrow> val \<Rightarrow> (key list list \<times> val \<times> heap) res" where
  "paths fuel h value =
     bind (forEach fuel h value (\<lambda>acc vw. (acc @ [path (fst vw)], [], VUndef)) [])
       (\<lambda>(r, v, h', acc). Done (acc, v, h'))"

definition nodes :: "nat \<Rightarrow> heap \<Rightarrow> val \<Rightarrow> (val list \<times> val \<times> heap) res" where
  "nodes fuel h value =
     bind (forEach fuel h value (\<lambda>acc vw. (acc @ [node (fst vw)], [], VUndef)) [])
       (\<lambda>(r, v, h', acc). Done (acc, v, h'))"

subsection \<open>clone\<close>





section \<open>Derived notions and example inputs\<close>

text \<open>
  What a callback sees when a visit calls it: the state after the first \<^verbatim>\<open>updateState()\<close>,
  the ancestor stack and the heap, the node copied first in copy-on-write mode.
\<close>

definition entry_view :: "bool \<Rightarrow> key list \<Rightarrow> tstate list \<Rightarrow> heap \<Rightarrow> val \<Rightarrow> view" where
  "entry_view immutable p ps h nd0 =
     (let (nd, h1) = (if immutable then copy h nd0 else (nd0, h))
      in (updateState ps h1 nd0 (init_state p nd nd0), ps, h1))"

text \<open>The heap of \<^verbatim>\<open>{a: 1}\<close>, and a callback that calls \<^verbatim>\<open>this.delete()\<close> on every node.\<close>

definition h_one :: heap where
  "h_one = [empty_obj\<lparr>props := [(KStr ''a'', VNum 1)]\<rparr>]"

definition cb_delete :: "unit callback" where
  "cb_delete u vw = (u, [Delete False], VUndef)"

text \<open>
  The heap of \<^verbatim>\<open>{x: new Date, y: 10, z: 5}\<close>: the root at address 0, the date at address 1.
\<close>

definition h_date :: heap where
  "h_date =
     [empty_obj\<lparr>props := [(KStr ''x'', VRef 1), (KStr ''y'', VNum 10), (KStr ''z'', VNum 5)]\<rparr>,
      empty_obj\<lparr>kind := KDate, slot := VNum 1500000000000\<rparr>]"








text \<open>The heap of \<^verbatim>\<open>{a: {b: 5}}\<close>.\<close>

definition h_ab :: heap where
  "h_ab = [empty_obj\<lparr>props := [(KStr ''a'', VRef 1)]\<rparr>, empty_obj\<lparr>props := [(KStr ''b'', VNum 5)]\<rparr>]"

text \<open>
  The callback \<^verbatim>\<open>function (node) { if (typeof node === 'number') this.update(node + 100) }\<close>,
  and the field \<^verbatim>\<open>x\<close> of what a method returned.
\<close>

definition cb_add100 :: "unit callback" where
  "cb_add100 u vw =
     (case node (fst vw) of VNum n \<Rightarrow> (u, [Update (VNum (n + 100)) False], VUndef)
      | _ \<Rightarrow> (u, [], VUndef))"

definition x_of_result :: "(val \<times> val \<times> heap \<times> unit) res \<Rightarrow> val res" where
  "x_of_result m = bind m (\<lambda>(r, v, h, u). get_prop h r (KStr ''x''))"

text \<open>The heap of \<^verbatim>\<open>o = {}; o.self = o\<close>.\<close>

definition h_self :: heap where
  "h_self = [empty_obj\<lparr>props := [(KStr ''self'', VRef 0)]\<rparr>]"

text \<open>
  The function \<^verbatim>\<open>reduce\<close> hands to \<^verbatim>\<open>forEach\<close> when every visit calls the reducer, a callback
  that does nothing, and what it means that two callbacks agree below the root.
\<close>

definition wrap_reducer :: "('a \<Rightarrow> view \<Rightarrow> val \<Rightarrow> 'a \<times> 'a op list) \<Rightarrow> 'a callback" where
  "wrap_reducer cb a vw = (let (a', cs) = cb a vw (node (fst vw)) in (a', cs, VUndef))"

definition cb_nothing :: "'a callback" where
  "cb_nothing a vw = (a, [], VUndef)"

definition agree_below :: "'a callback \<Rightarrow> 'a callback \<Rightarrow> bool" where
  "agree_below cb cb' = (\<forall>u s ps h. \<not> isRoot s \<longrightarrow> cb u (s, ps, h) = cb' u (s, ps, h))"

text \<open>A reducer that counts its calls.\<close>

definition cb_count :: "nat \<Rightarrow> view \<Rightarrow> val \<Rightarrow> nat \<times> nat op list" where
  "cb_count a vw x = (Suc a, [])"

text \<open>
  A callback that only records something of every view it is called on, as the callbacks
  of \<^verbatim>\<open>paths\<close> and \<^verbatim>\<open>nodes\<close> do.
\<close>

definition log_cb :: "(view \<Rightarrow> 'a) \<Rightarrow> 'a list callback" where
  "log_cb f acc vw = (acc @ [f vw], [], VUndef)"

text \<open>
  The number of nodes a walk visits from a value \<open>v\<close> under the original values \<open>anc\<close> of
  its ancestors: the node itself and, when it is an object that is not among its
  ancestors, the nodes visited from each of its keys. A circular node counts once. The
  recursion is bounded by the same fuel as \<^verbatim>\<open>walker\<close>.
\<close>

definition child_val :: "heap \<Rightarrow> val \<Rightarrow> key \<Rightarrow> val" where
  "child_val h v k = (case get_prop h v k of Done x \<Rightarrow> x | _ \<Rightarrow> VUndef)"

fun sum_opt :: "nat option list \<Rightarrow> nat option" where
  "sum_opt [] = Some 0"
| "sum_opt (None # xs) = None"
| "sum_opt (Some a # xs) = map_option (\<lambda>b. a + b) (sum_opt xs)"

primrec count_visits :: "nat \<Rightarrow> heap \<Rightarrow> val list \<Rightarrow> val \<Rightarrow> nat option" where
  "count_visits 0 = (\<lambda>h anc v. None)"
| "count_visits (Suc n) = (\<lambda>h anc v.
     if isPureObj v \<and> v \<notin> set anc
     then map_option Suc
            (sum_opt (map (\<lambda>k. count_visits n h (anc @ [v]) (child_val h v k)) (objectKeys h v)))
     else Some 1)"

text \<open>
  The count as the specification words it: the root plus every descendant that is not
  circular.
\<close>

primrec count_noncircular :: "nat \<Rightarrow> heap \<Rightarrow> val list \<Rightarrow> val \<Rightarrow> nat option" where
  "count_noncircular 0 = (\<lambda>h anc v. None)"
| "count_noncircular (Suc n) = (\<lambda>h anc v.
     if isPureObj v \<and> v \<in> set anc then Some 0
     else if isPureObj v
     then map_option Suc
            (sum_opt (map (\<lambda>k. count_noncircular n h (anc @ [v]) (child_val h v k)) (objectKeys h v)))
     else Some 1)"

definition length_of_paths :: "(key list list \<times> val \<times> heap) res \<Rightarrow> nat option" where
  "length_of_paths m = (case m of Done (ps, v, h) \<Rightarrow> Some (length ps) | _ \<Rightarrow> None)"

text \<open>
  A frame with no hook registered and no veto, the state a visit starts with in mutate
  mode, and a visitor whose visits with a recording callback leave the heap alone and
  record as many views as \<open>count_visits\<close> says.
\<close>

definition plain :: "'u frame \<Rightarrow> bool" where
  "plain fr = (m_before fr = None \<and> m_after fr = None \<and> m_pre fr = None \<and> m_post fr = None
               \<and> keepGoing fr \<and> alive fr)"

definition entry_state :: "tstate list \<Rightarrow> heap \<Rightarrow> key list \<Rightarrow> val \<Rightarrow> tstate" where
  "entry_state ps h p nd = updateState ps h nd (init_state p nd nd)"

definition counts :: "'a list visitor \<Rightarrow> nat \<Rightarrow> heap \<Rightarrow> bool" where
  "counts visit n h = (\<forall>p ps acc nd.
     case count_visits n h (map node_orig ps) nd of
       None \<Rightarrow> visit p ps (h, True, acc) nd = OutOfFuel
     | Some c \<Rightarrow> (\<exists>s acc'. visit p ps (h, True, acc) nd = Done (s, h, True, acc')
                    \<and> node s = nd \<and> length acc' = length acc + c))"

section \<open>Properties\<close>

subsection \<open>Calls on the state of the root\<close>

lemma run_op_root:
  "c \<noteq> Raise \<Longrightarrow> run_op [] c fr = Throw TypeError \<or> (\<exists>fr'. run_op [] c fr = Done fr')"
  by (cases c) (auto simp: parent_node_def)

lemma run_ops_delete_root:
  "Delete b \<in> set cs \<Longrightarrow> Raise \<notin> set cs \<Longrightarrow> run_ops [] cs fr = Throw TypeError"
proof (induction cs arbitrary: fr)
  case Nil
  then show ?case by simp
next
  case (Cons c cs)
  show ?case
  proof (cases "c = Delete b")
    case True
    then show ?thesis by (simp add: parent_node_def)
  next
    case False
    with Cons.prems have in_tl: "Delete b \<in> set cs" and nr: "Raise \<notin> set cs" and cr: "c \<noteq> Raise"
      by auto
    from run_op_root [OF cr, of fr] show ?thesis
    proof
      assume "run_op [] c fr = Throw TypeError"
      then show ?thesis by simp
    next
      assume "\<exists>fr'. run_op [] c fr = Done fr'"
      then obtain fr' where "run_op [] c fr = Done fr'" ..
      then show ?thesis using Cons.IH [OF in_tl nr, of fr'] by simp
    qed
  qed
qed

text \<open>
  C10. \<^verbatim>\<open>remove\<close> on the state of the root returns at once, but \<^verbatim>\<open>delete\<close> has no such
  guard: in every walk, in either mode, when the callback calls \<^verbatim>\<open>delete\<close> on the state of
  the root (and does not throw an error of its own), reading \<^verbatim>\<open>node\<close> of the undefined parent
  throws a TypeError and the walk ends with it.
\<close>

theorem delete_on_root_throws:
  "run_op [] (Remove b') fr = Done fr \<and>
   (cb u (entry_view immutable [] [] h root) = (u1, cs, ret) \<longrightarrow> Delete b \<in> set cs
     \<longrightarrow> Raise \<notin> set cs \<longrightarrow> walk (Suc n) h root cb u immutable = Throw TypeError)"
  by (auto simp: walk_def walker_body_def call_cb_def entry_view_def run_ops_delete_root
      split: prod.splits)

theorem delete_on_root_throws_witness:
  "walk (Suc 0) h_one (VRef 0) cb_delete () False = Throw TypeError"
proof -
  have c: "cb_delete () (entry_view False [] [] h_one (VRef 0)) = ((), [Delete False], VUndef)"
    by (simp add: cb_delete_def)
  have d: "Delete False \<in> set [Delete False :: unit op]" by simp
  have r: "Raise \<notin> set [Delete False :: unit op]" by simp
  from delete_on_root_throws [where cb = cb_delete and u = "()" and immutable = False
      and h = h_one and root = "VRef 0" and cs = "[Delete False]" and b = False and n = 0,
      THEN conjunct2, rule_format, OF c d r]
  show ?thesis .
qed

subsection \<open>Evaluation and results of \<open>bind\<close>\<close>

lemmas walk_eval =
  walk_def walker_body_def call_cb_def descend_def child_step_def pre_step_def post_step_def
  write_back_def mark_child_def updateState_def init_state_def opt_hook_def run_hook_def
  result_def deref_def stop_here_def key_of_def parent_node_def alloc_def empty_obj_def
  set_own_def del_own_def splice1_def key_index_def copy_obj_def copy_base_def isKind_def
  Let_def

subsection \<open>The walk after \<^verbatim>\<open>stop()\<close>\<close>

lemma bind_Done_iff: "bind m f = Done y \<longleftrightarrow> (\<exists>x. m = Done x \<and> f x = Done y)"
  by (cases m) auto













subsection \<open>\<^verbatim>\<open>remove\<close>\<close>



lemma shift_down_str: "map_of (shift_down i ps) (KStr s) = map_of ps (KStr s)"
  by (induction i ps rule: shift_down.induct) auto

lemma run_op_remove_veto:
  "ps \<noteq> [] \<Longrightarrow> run_op ps (Remove True) fr = Done fr' \<Longrightarrow> \<not> keepGoing fr'"
  by (auto simp: bind_Done_iff stop_here_def split: if_splits)



subsection \<open>\<^verbatim>\<open>get\<close> and \<^verbatim>\<open>has\<close>\<close>



lemma get_has_examples:
  "get h_ab (VRef 0) [KStr ''a'', KStr ''b''] = Done (VNum 5)
   \<and> get h_ab (VRef 0) [KStr ''a'', KStr ''c''] = Done VUndef
   \<and> has h_ab (VRef 0) [KStr ''a'', KStr ''c''] = Done False
   \<and> has h_ab (VRef 0) [KStr ''a'', KStr ''b''] = Done True
   \<and> get h_ab (VRef 0) [KStr ''a'', KStr ''b'', KStr ''c''] = Done VUndef"
  by (simp add: h_ab_def deref_def)

subsection \<open>\<^verbatim>\<open>map\<close> over a record with a date\<close>

text \<open>
  C2, as stated: the field \<^verbatim>\<open>x\<close> of what \<^verbatim>\<open>map\<close> returns for \<^verbatim>\<open>{x: d, y: 10, z: 5}\<close> would
  be the reference \<open>d\<close> itself (address 1). It is not.
\<close>

theorem map_date_counterexample:
  "x_of_result (map_tr 3 h_date (VRef 0) cb_add100 ()) \<noteq> Done (VRef 1)"
  by code_simp

text \<open>
  C2, amended. For \<^verbatim>\<open>{x: d, y: 10, z: 5}\<close>, \<^verbatim>\<open>map\<close> with the callback that adds 100 to every
  number returns a new root (address 2, not the original root at address 0) with \<^verbatim>\<open>y\<close> 110
  and \<^verbatim>\<open>z\<close> 105, whose \<^verbatim>\<open>x\<close> is a new date (address 3) with the instant of \<open>d\<close>: the date is
  copied, as every visited object is. The original root and date are unchanged, and the
  facade still holds the original root.
\<close>

theorem map_date_copied:
  "map_tr (Suc (Suc n)) h_date (VRef 0) cb_add100 () =
     Done (VRef 2, VRef 0,
           h_date @
           [empty_obj\<lparr>props := [(KStr ''x'', VRef 3), (KStr ''y'', VNum 110), (KStr ''z'', VNum 105)]\<rparr>,
            empty_obj\<lparr>kind := KDate, slot := VNum 1500000000000\<rparr>], ())"
  by (simp add: map_tr_def walk_eval h_date_def cb_add100_def)

theorem map_date_copied_witness:
  "map_tr (Suc (Suc 1)) h_date (VRef 0) cb_add100 () =
     Done (VRef 2, VRef 0,
           h_date @
           [empty_obj\<lparr>props := [(KStr ''x'', VRef 3), (KStr ''y'', VNum 110), (KStr ''z'', VNum 105)]\<rparr>,
            empty_obj\<lparr>kind := KDate, slot := VNum 1500000000000\<rparr>], ())"
  by (rule map_date_copied [of 1])

subsection \<open>\<^verbatim>\<open>clone\<close>\<close>



subsection \<open>\<^verbatim>\<open>reduce\<close>\<close>

lemma bind_cong:
  "m = m' \<Longrightarrow> (\<And>x. m' = Done x \<Longrightarrow> f x = g x) \<Longrightarrow> bind m f = bind m' g"
  by (cases m') auto

lemma isRoot_updateState [simp]: "isRoot (updateState ps h nd s) = isRoot s"
  by (simp add: updateState_def Let_def)

lemma isRoot_init_state [simp]: "isRoot (init_state p nd nd0) = (p = [])"
  by (simp add: init_state_def)

lemma call_cb_cong:
  "cb u (s, ps, h) = cb' u (s, ps, h) \<Longrightarrow> call_cb cb ps s h u = call_cb cb' ps s h u"
  by (simp add: call_cb_def)

lemma child_step_cong:
  assumes "\<And>p' ps' w' nd'. p' \<noteq> [] \<Longrightarrow> visit p' ps' w' nd' = visit' p' ps' w' nd'"
  shows "child_step visit immutable p ps i n k fr = child_step visit' immutable p ps i n k fr"
  using assms by (simp add: child_step_def)

lemma children_cong:
  assumes "\<And>p' ps' w' nd'. p' \<noteq> [] \<Longrightarrow> visit p' ps' w' nd' = visit' p' ps' w' nd'"
  shows "children visit immutable p ps i n ks fr = children visit' immutable p ps i n ks fr"
proof (induction ks arbitrary: i fr)
  case Nil
  show ?case by simp
next
  case (Cons k ks)
  have e: "children visit immutable p ps (Suc i) n ks = children visit' immutable p ps (Suc i) n ks"
    by (rule ext) (rule Cons.IH)
  show ?case
    by (simp add: child_step_cong [of visit visit', OF assms] e)
qed

lemma descend_cong:
  assumes "\<And>p' ps' w' nd'. p' \<noteq> [] \<Longrightarrow> visit p' ps' w' nd' = visit' p' ps' w' nd'"
  shows "descend visit immutable p ps nd fr = descend visit' immutable p ps nd fr"
  by (simp add: descend_def children_cong [of visit visit', OF assms])

lemma walker_body_cong_visit:
  assumes "\<And>p' ps' w' nd'. p' \<noteq> [] \<Longrightarrow> visit p' ps' w' nd' = visit' p' ps' w' nd'"
  shows "walker_body visit cb immutable p ps w nd = walker_body visit' cb immutable p ps w nd"
proof -
  have "descend visit immutable p ps nd = descend visit' immutable p ps nd"
    by (rule ext) (rule descend_cong [OF assms])
  then show ?thesis by (simp add: walker_body_def Let_def split: prod.splits cong: if_cong)
qed

lemma walker_body_cong_cb:
  assumes "\<And>u s h. isRoot s = (p = []) \<Longrightarrow> cb u (s, ps, h) = cb' u (s, ps, h)"
  shows "walker_body visit cb immutable p ps w nd = walker_body visit cb' immutable p ps w nd"
proof -
  have "call_cb cb ps (updateState ps h nd (init_state p x nd)) h u
      = call_cb cb' ps (updateState ps h nd (init_state p x nd)) h u" for h x u
    by (rule call_cb_cong) (rule assms, simp)
  then show ?thesis
    by (simp add: walker_body_def Let_def split: prod.splits cong: if_cong bind_cong)
qed

lemma walker_agree_below:
  assumes a: "agree_below cb cb'"
  shows "p \<noteq> [] \<Longrightarrow> walker n cb immutable p ps w nd = walker n cb' immutable p ps w nd"
proof (induction n arbitrary: p ps w nd)
  case 0
  show ?case by simp
next
  case (Suc n)
  have 1: "walker_body (walker n cb immutable) cb immutable p ps w nd
         = walker_body (walker n cb' immutable) cb immutable p ps w nd"
    by (rule walker_body_cong_visit) (rule Suc.IH)
  have 2: "walker_body (walker n cb' immutable) cb immutable p ps w nd
         = walker_body (walker n cb' immutable) cb' immutable p ps w nd"
    using a Suc.prems by (intro walker_body_cong_cb) (simp add: agree_below_def)
  from 1 2 show ?case by simp
qed

lemma guard_agree:
  "agree_below (\<lambda>a vw. if \<not> isRoot (fst vw) \<or> \<not> True
                          then (let (a', cs) = cb a vw (node (fst vw)) in (a', cs, VUndef))
                          else (a, [], VUndef)) (wrap_reducer cb)"
  by (simp add: agree_below_def wrap_reducer_def)

text \<open>
  C7. With an initial value, \<^verbatim>\<open>reduce\<close> is the walk in which every visit, the root
  included, calls the reducer, started on the initial value. Without one, the accumulator
  starts as the root value, the visit of the root calls nothing, and every visit below the
  root calls the reducer. In both cases the accumulator after the walk is returned.
\<close>

theorem reduce_seed_and_root:
  "reduce fuel h v cb (Some a) of_val =
     bind (forEach fuel h v (wrap_reducer cb) a) (\<lambda>(r, v', h', a'). Done (a', v', h'))
   \<and> reduce (Suc n) h v cb None of_val =
     bind (walker_body (walker n (wrap_reducer cb) False) cb_nothing False [] [] (h, True, of_val v) v)
       (\<lambda>(s, h', al, a'). Done (a', node s, h'))"
proof
  have "(\<lambda>a vw. let (a', cs) = cb a vw (node (fst vw)) in (a', cs, VUndef)) = wrap_reducer cb"
    by (intro ext) (simp add: wrap_reducer_def)
  then show "reduce fuel h v cb (Some a) of_val =
     bind (forEach fuel h v (wrap_reducer cb) a) (\<lambda>(r, v', h', a'). Done (a', v', h'))"
    by (simp add: reduce_def)
next
  let ?G = "\<lambda>a vw. if \<not> isRoot (fst vw) \<or> \<not> True
                          then (let (a', cs) = cb a vw (node (fst vw)) in (a', cs, VUndef))
                          else (a, [], VUndef)"
  have 1: "walker_body (walker n ?G False) ?G False [] [] (h, True, of_val v) v
         = walker_body (walker n (wrap_reducer cb) False) ?G False [] [] (h, True, of_val v) v"
    by (rule walker_body_cong_visit) (rule walker_agree_below [OF guard_agree])
  have 2: "walker_body (walker n (wrap_reducer cb) False) ?G False [] [] (h, True, of_val v) v
         = walker_body (walker n (wrap_reducer cb) False) cb_nothing False [] [] (h, True, of_val v) v"
    by (rule walker_body_cong_cb) (simp add: cb_nothing_def)
  have "reduce (Suc n) h v cb None of_val =
     bind (walker_body (walker n ?G False) ?G False [] [] (h, True, of_val v) v)
       (\<lambda>(s, h', al, a'). Done (a', node s, h'))"
    by (cases "walker_body (walker n ?G False) ?G False [] [] (h, True, of_val v) v")
       (auto simp: reduce_def forEach_def walk_def)
  with 1 2 show "reduce (Suc n) h v cb None of_val =
     bind (walker_body (walker n (wrap_reducer cb) False) cb_nothing False [] [] (h, True, of_val v) v)
       (\<lambda>(s, h', al, a'). Done (a', node s, h'))"
    by simp
qed

theorem reduce_seed_and_root_witness:
  "reduce 3 h_date (VRef 0) cb_count (Some 0) (\<lambda>v. 0) = Done (4, VRef 0, h_date)
   \<and> reduce (Suc 2) h_date (VRef 0) cb_count None (\<lambda>v. 0) = Done (3, VRef 0, h_date)"
proof -
  note t = reduce_seed_and_root [where h = h_date and v = "VRef 0" and cb = cb_count
      and of_val = "\<lambda>v. 0" and a = 0 and fuel = 3 and n = 2]
  have 1: "bind (forEach 3 h_date (VRef 0) (wrap_reducer cb_count) 0)
             (\<lambda>(r, v', h', a'). Done (a', v', h')) = Done (4, VRef 0, h_date)"
    by code_simp
  have 2: "bind (walker_body (walker 2 (wrap_reducer cb_count) False) cb_nothing False [] []
                   (h_date, True, 0) (VRef 0))
             (\<lambda>(s, h', al, a'). Done (a', node s, h')) = Done (3, VRef 0, h_date)"
    by code_simp
  from t [THEN conjunct1] 1 have a: "reduce 3 h_date (VRef 0) cb_count (Some 0) (\<lambda>v. 0) = Done (4, VRef 0, h_date)"
    by (rule trans)
  from t [THEN conjunct2] 2 have b: "reduce (Suc 2) h_date (VRef 0) cb_count None (\<lambda>v. 0) = Done (3, VRef 0, h_date)"
    by (rule trans)
  from a b show ?thesis by (intro conjI)
qed

subsection \<open>\<^verbatim>\<open>paths\<close> and \<^verbatim>\<open>nodes\<close>\<close>

lemma find_idx_None: "find_idx P xs = None \<longleftrightarrow> (\<forall>x\<in>set xs. \<not> P x)"
  by (induction xs) auto

lemma call_cb_log:
  "call_cb (log_cb f) ps s h acc =
     Done \<lparr>cur = s, m_before = None, m_after = None, m_pre = None, m_post = None,
           keepGoing = True, hp = h, alive = True, usr = acc @ [f (s, ps, h)]\<rparr>"
  by (simp add: call_cb_def log_cb_def opt_hook_def)

lemma entry_state_simps [simp]:
  "node (entry_state ps h p nd) = nd"
  "node_orig (entry_state ps h p nd) = nd"
  "isPureObj nd \<Longrightarrow> keys (entry_state ps h p nd) = Some (objectKeys h nd)"
  "circular (entry_state ps h p nd) = (if isPureObj nd then find_idx (\<lambda>q. node_orig q = nd) ps else None)"
  by (auto simp: entry_state_def updateState_def init_state_def Let_def split: option.splits)

lemma updateState_again [simp]:
  "isPureObj nd \<Longrightarrow>
   node (updateState qs h nd (entry_state ps h p nd)) = nd \<and>
   node_orig (updateState qs h nd (entry_state ps h p nd)) = nd \<and>
   keys (updateState qs h nd (entry_state ps h p nd)) = Some (objectKeys h nd)"
  by (auto simp: entry_state_def updateState_def init_state_def Let_def split: option.splits)

lemma countsD:
  assumes "counts visit n h"
  shows "case count_visits n h (map node_orig ps) nd of
       None \<Rightarrow> visit p ps (h, True, acc) nd = OutOfFuel
     | Some c \<Rightarrow> (\<exists>s acc'. visit p ps (h, True, acc) nd = Done (s, h, True, acc')
                    \<and> node s = nd \<and> length acc' = length acc + c)"
  using assms unfolding counts_def by blast

lemma child_step_plain:
  assumes pl: "plain fr" and h: "hp fr = h" and nd: "node (cur fr) = VRef r"
  shows "child_step visit False p ps i m k fr =
     bind (visit (p @ [k]) (ps @ [cur fr]) (h, True, usr fr) (child_val h (VRef r) k))
       (\<lambda>(child, h', al, u). Done (fr\<lparr>hp := h', alive := al, usr := u\<rparr>))"
  using pl h nd
  by (simp add: child_step_def pre_step_def post_step_def write_back_def plain_def child_val_def
      cong: bind_cong)

lemma children_counts:
  assumes v: "counts visit n h"
  shows "plain fr \<Longrightarrow> hp fr = h \<Longrightarrow> node (cur fr) = VRef r \<Longrightarrow>
     (case sum_opt (map (\<lambda>k. count_visits n h (map node_orig (ps @ [cur fr])) (child_val h (VRef r) k)) ks) of
        None \<Rightarrow> children visit False p ps i m ks fr = OutOfFuel
      | Some c \<Rightarrow> (\<exists>acc'. children visit False p ps i m ks fr = Done (fr\<lparr>usr := acc'\<rparr>)
                     \<and> length acc' = length (usr fr) + c))"
proof (induction ks arbitrary: i fr)
  case Nil
  then show ?case by (auto intro!: exI [of _ "usr fr"])
next
  case (Cons k ks)
  let ?anc = "map node_orig (ps @ [cur fr])"
  let ?cv = "child_val h (VRef r) k"
  note st = child_step_plain [OF Cons.prems, of visit p ps i m k]
  note vk = countsD [OF v, where ps = "ps @ [cur fr]" and nd = ?cv and p = "p @ [k]"
      and acc = "usr fr"]
  show ?case
  proof (cases "count_visits n h ?anc ?cv")
    case None
    with vk st show ?thesis by simp
  next
    case (Some c)
    with vk obtain s acc1 where
      1: "visit (p @ [k]) (ps @ [cur fr]) (h, True, usr fr) ?cv = Done (s, h, True, acc1)"
      and 2: "length acc1 = length (usr fr) + c" by auto
    let ?fr1 = "fr\<lparr>hp := h, alive := True, usr := acc1\<rparr>"
    from st 1 have step: "child_step visit False p ps i m k fr = Done ?fr1" by simp
    have p1: "plain ?fr1" "hp ?fr1 = h" "node (cur ?fr1) = VRef r"
      using Cons.prems by (simp_all add: plain_def)
    have c1: "cur ?fr1 = cur fr" by simp
    note ih = Cons.IH [OF p1, of "Suc i", unfolded c1]
    show ?thesis
    proof (cases "sum_opt (map (\<lambda>k. count_visits n h ?anc (child_val h (VRef r) k)) ks)")
      case None
      with ih Some step show ?thesis by simp
    next
      case (Some d)
      with ih obtain acc2 where
        3: "children visit False p ps (Suc i) m ks ?fr1 = Done (?fr1\<lparr>usr := acc2\<rparr>)"
        and 4: "length acc2 = length (usr ?fr1) + d" by auto
      have e: "?fr1\<lparr>usr := acc2\<rparr> = fr\<lparr>usr := acc2\<rparr>"
        using Cons.prems by (simp add: plain_def)
      from 3 4 2 step e \<open>count_visits n h ?anc ?cv = Some c\<close> Some show ?thesis
        by (auto intro!: exI [of _ acc2])
    qed
  qed
qed


lemma walker_body_counts:
  assumes v: "counts visit n h"
  shows "counts (walker_body visit (log_cb f) False) (Suc n) h"
  unfolding counts_def
proof (intro allI)
  fix p ps acc nd
  let ?s = "entry_state ps h p nd"
  let ?fr = "\<lparr>cur = ?s, m_before = None, m_after = None, m_pre = None, m_post = None,
           keepGoing = True, hp = h, alive = True, usr = acc @ [f (?s, ps, h)]\<rparr>"
  have wb: "walker_body visit (log_cb f) False p ps (h, True, acc) nd =
          bind (descend visit False p ps nd ?fr)
            (\<lambda>fr5. bind (opt_hook ps ps (m_after fr5) fr5) (\<lambda>fr6. Done (result fr6)))"
    by (simp add: walker_body_def call_cb_log entry_state_def [symmetric])
  show "case count_visits (Suc n) h (map node_orig ps) nd of
       None \<Rightarrow> walker_body visit (log_cb f) False p ps (h, True, acc) nd = OutOfFuel
     | Some c \<Rightarrow> (\<exists>s acc'. walker_body visit (log_cb f) False p ps (h, True, acc) nd = Done (s, h, True, acc')
                    \<and> node s = nd \<and> length acc' = length acc + c)"
  proof (cases "isPureObj nd \<and> nd \<notin> set (map node_orig ps)")
    case False
    then have "descend visit False p ps nd ?fr = Done ?fr"
      by (auto simp: descend_def find_idx_None)
    with False wb show ?thesis by (auto simp: result_def opt_hook_def)
  next
    case True
    then obtain r where r: "nd = VRef r" by (cases nd) auto
    let ?s4 = "updateState (ps @ [?s]) h nd ?s"
    let ?fr4 = "?fr\<lparr>cur := ?s4\<rparr>"
    from True have d: "descend visit False p ps nd ?fr =
        children visit False p ps 0 (length (objectKeys h nd)) (objectKeys h nd) ?fr4"
      by (auto simp: descend_def find_idx_None Let_def)
    have pl: "plain ?fr4" "hp ?fr4 = h" "node (cur ?fr4) = VRef r"
      using True r by (simp_all add: plain_def)
    have anc: "map node_orig (ps @ [cur ?fr4]) = map node_orig ps @ [nd]"
      using True by simp
    note ch = children_counts [OF v pl, where ps = ps and ks = "objectKeys h nd" and p = p
        and i = 0 and m = "length (objectKeys h nd)", unfolded anc]
    show ?thesis
    proof (cases "sum_opt (map (\<lambda>k. count_visits n h (map node_orig ps @ [nd]) (child_val h (VRef r) k)) (objectKeys h nd))")
      case None
      with ch d wb True r show ?thesis by simp
    next
      case (Some c)
      with ch obtain acc' where
        1: "children visit False p ps 0 (length (objectKeys h nd)) (objectKeys h nd) ?fr4 = Done (?fr4\<lparr>usr := acc'\<rparr>)"
        and 2: "length acc' = length (usr ?fr4) + c" by auto
      from 1 d wb have "walker_body visit (log_cb f) False p ps (h, True, acc) nd = Done (?s4, h, True, acc')"
        by (simp add: result_def opt_hook_def)
      with 2 Some True r show ?thesis by simp
    qed
  qed
qed

lemma walker_counts: "counts (walker n (log_cb f) False) n h"
proof (induction n)
  case 0
  show ?case by (simp add: counts_def)
next
  case (Suc n)
  from walker_body_counts [OF Suc] show ?case by simp
qed


lemma sum_opt_Some: "(\<forall>x\<in>set xs. x \<noteq> None) \<Longrightarrow> sum_opt xs \<noteq> None"
  by (induction xs rule: sum_opt.induct) auto

lemma count_visits_total:
  "card {r. r < length h \<and> VRef r \<notin> set anc} < n \<Longrightarrow> count_visits n h anc v \<noteq> None"
proof (induction n arbitrary: anc v)
  case 0
  then show ?case by simp
next
  case (Suc n)
  show ?case
  proof (cases "isPureObj v \<and> v \<notin> set anc")
    case False
    then show ?thesis by auto
  next
    case True
    then obtain r where r: "v = VRef r" by (cases v) auto
    show ?thesis
    proof (cases "r < length h")
      case False
      with r True show ?thesis by (simp add: deref_def empty_obj_def)
    next
      case rl: True
      let ?A = "{r'. r' < length h \<and> VRef r' \<notin> set anc}"
      let ?B = "{r'. r' < length h \<and> VRef r' \<notin> set (anc @ [v])}"
      have fin: "finite ?A" by simp
      have rin: "r \<in> ?A" using rl True r by simp
      have eq: "?B = ?A - {r}" using r by auto
      from fin rin have "card (?A - {r}) < card ?A" by (rule card_Diff1_less)
      with eq have "card ?B < card ?A" by simp
      with Suc.prems have "card ?B < n" by simp
      from Suc.IH [OF this] have "\<And>x. count_visits n h (anc @ [v]) x \<noteq> None" .
      then have "sum_opt (map (\<lambda>k. count_visits n h (anc @ [v]) (child_val h v k)) (objectKeys h v)) \<noteq> None"
        by (intro sum_opt_Some) auto
      with True show ?thesis by auto
    qed
  qed
qed

lemma count_visits_enough: "count_visits (Suc (length h)) h [] v \<noteq> None"
proof -
  have "card {r. r < length h \<and> VRef r \<notin> set []} \<le> card {r. r < length h}"
    by (intro card_mono) auto
  then have "card {r. r < length h \<and> VRef r \<notin> set []} < Suc (length h)" by simp
  then show ?thesis by (rule count_visits_total)
qed

lemma forEach_log:
  "count_visits n h [] v = Some c \<Longrightarrow>
   \<exists>acc. forEach n h v (log_cb f) [] = Done (v, v, h, acc) \<and> length acc = c"
proof -
  assume c: "count_visits n h [] v = Some c"
  note w = countsD [OF walker_counts [of n f h], where ps = "[]" and nd = v and p = "[]"
      and acc = "[]"]
  from w c obtain s acc where "walker n (log_cb f) False [] [] (h, True, []) v = Done (s, h, True, acc)"
    "node s = v" "length acc = c" by auto
  then show ?thesis by (auto simp: forEach_def walk_def)
qed

lemma paths_log: "paths n h v = bind (forEach n h v (log_cb (\<lambda>vw. path (fst vw))) [])
       (\<lambda>(r, v, h', acc). Done (acc, v, h'))"
  by (simp add: paths_def log_cb_def [abs_def])

lemma nodes_log: "nodes n h v = bind (forEach n h v (log_cb (\<lambda>vw. node (fst vw))) [])
       (\<lambda>(r, v, h', acc). Done (acc, v, h'))"
  by (simp add: nodes_def log_cb_def [abs_def])

text \<open>
  C9, as stated: the length of \<^verbatim>\<open>paths()\<close> would be the count of the root plus every
  descendant that is not circular. For \<^verbatim>\<open>o = {}; o.self = o\<close> that count is 1, but \<^verbatim>\<open>paths()\<close>
  has length 2: the circular child is visited.
\<close>

theorem paths_count_counterexample:
  "length_of_paths (paths 3 h_self (VRef 0)) = Some 2
   \<and> count_noncircular 3 h_self [] (VRef 0) = Some 1
   \<and> length_of_paths (paths 3 h_self (VRef 0)) \<noteq> count_noncircular 3 h_self [] (VRef 0)"
  by code_simp

text \<open>
  C9, amended. For every heap and root, cyclic or not, \<^verbatim>\<open>paths()\<close> and \<^verbatim>\<open>nodes()\<close> return
  whenever the fuel is enough for the count, with the root and the heap unchanged and two
  lists of the same length: the number of visited nodes, which are the root and every
  descendant below nodes that are not circular, a circular node counted once. Fuel one
  above the size of the heap is always enough.
\<close>

theorem paths_nodes_count:
  "(count_visits n h [] v = Some c \<longrightarrow>
      (\<exists>ps ns. paths n h v = Done (ps, v, h) \<and> nodes n h v = Done (ns, v, h)
         \<and> length ps = c \<and> length ns = c))
   \<and> (\<exists>c. count_visits (Suc (length h)) h [] v = Some c)"
proof (intro conjI impI)
  assume c: "count_visits n h [] v = Some c"
  from forEach_log [OF c, of "\<lambda>vw. path (fst vw)"] obtain ps where
    "forEach n h v (log_cb (\<lambda>vw. path (fst vw))) [] = Done (v, v, h, ps)" "length ps = c" by blast
  moreover from forEach_log [OF c, of "\<lambda>vw. node (fst vw)"] obtain ns where
    "forEach n h v (log_cb (\<lambda>vw. node (fst vw))) [] = Done (v, v, h, ns)" "length ns = c" by blast
  ultimately show "\<exists>ps ns. paths n h v = Done (ps, v, h) \<and> nodes n h v = Done (ns, v, h)
         \<and> length ps = c \<and> length ns = c"
    by (simp add: paths_log nodes_log)
next
  from count_visits_enough [of h v] show "\<exists>c. count_visits (Suc (length h)) h [] v = Some c"
    by auto
qed

theorem paths_nodes_count_witness:
  "count_visits 2 h_self [] (VRef 0) = Some 2
   \<and> paths 2 h_self (VRef 0) = Done ([[], [KStr ''self'']], VRef 0, h_self)
   \<and> nodes 2 h_self (VRef 0) = Done ([VRef 0, VRef 0], VRef 0, h_self)"
proof -
  have c: "count_visits 2 h_self [] (VRef 0) = Some 2" by code_simp
  from paths_nodes_count [THEN conjunct1, rule_format, OF c] obtain ps ns where
    "paths 2 h_self (VRef 0) = Done (ps, VRef 0, h_self)" "nodes 2 h_self (VRef 0) = Done (ns, VRef 0, h_self)"
    "length ps = 2" "length ns = 2" by blast
  moreover have "paths 2 h_self (VRef 0) = Done ([[], [KStr ''self'']], VRef 0, h_self)" by code_simp
  moreover have "nodes 2 h_self (VRef 0) = Done ([VRef 0, VRef 0], VRef 0, h_self)" by code_simp
  ultimately show ?thesis using c by simp
qed

end
